theory Spec2Isabelle
  imports Complex_Main
begin

section \<open>Python values, list indexing and element accesses\<close>

text \<open>
  The four search functions of \<^verbatim>\<open>searches/binary_search.py\<close> are embedded with the
  data the code has: a Python list is a HOL list, a Python \<^verbatim>\<open>int\<close> (unbounded) is
  \<^typ>\<open>int\<close>. For the three bisection searches the element type of a sequence is
  any linear order (the code only uses \<^verbatim>\<open>==\<close> and \<^verbatim>\<open><\<close> on elements); for
  interpolation search, which computes with the elements, it is the type of Python
  numbers defined below.

  An exception is a value. A function returns a pair: the indices it has read from the
  sequence, in the order of the reads, and either the exception it raised or the value
  it returned. The log of reads is what the statements about element accesses speak of.
\<close>

datatype error = IndexError | ZeroDivisionError | OverflowError | ValueError

type_synonym 'r run = "int list \<times> (error + 'r)"

abbreviation accesses :: "'r run \<Rightarrow> int list" where
  "accesses r \<equiv> fst r"

abbreviation outcome :: "'r run \<Rightarrow> error + 'r" where
  "outcome r \<equiv> snd r"

text \<open>
  \<^verbatim>\<open>sorted_collection[i]\<close>: an index from \<^verbatim>\<open>0\<close> to \<^verbatim>\<open>len - 1\<close> reads that
  position, an index from \<^verbatim>\<open>-len\<close> to \<^verbatim>\<open>-1\<close> counts from the end, anything else
  raises \<^verbatim>\<open>IndexError\<close>.
\<close>

definition getitem :: "'a list \<Rightarrow> int \<Rightarrow> error + 'a" where
  "getitem xs i =
     (if 0 \<le> i \<and> i < int (length xs) then Inr (xs ! nat i)
      else if - int (length xs) \<le> i \<and> i < 0 then Inr (xs ! nat (int (length xs) + i))
      else Inl IndexError)"

text \<open>\<open>probe i r\<close> is the run \<open>r\<close> preceded by a read of index \<open>i\<close>.\<close>

definition probe :: "int \<Rightarrow> 'r run \<Rightarrow> 'r run" where
  "probe i r = (i # accesses r, outcome r)"

text \<open>
  \<open>fetch xs i k\<close> evaluates the expression \<^verbatim>\<open>xs[i]\<close> and goes on with its value:
  the read is logged, an \<^verbatim>\<open>IndexError\<close> ends the run.
\<close>

definition fetch :: "'a list \<Rightarrow> int \<Rightarrow> ('a \<Rightarrow> 'r run) \<Rightarrow> 'r run" where
  "fetch xs i k = (case getitem xs i of Inl e \<Rightarrow> ([i], Inl e) | Inr x \<Rightarrow> probe i (k x))"

lemma fetch_cong [fundef_cong]:
  "xs = ys \<Longrightarrow> i = j \<Longrightarrow> (\<And>x. getitem ys j = Inr x \<Longrightarrow> k x = k' x)
     \<Longrightarrow> fetch xs i k = fetch ys j k'"
  by (simp add: fetch_def split: sum.splits)

section \<open>binary\_search\<close>

text \<open>
  The \<^verbatim>\<open>while left <= right\<close> loop of \<^verbatim>\<open>binary_search\<close> (lines 30 to 44), on the
  loop variables \<^verbatim>\<open>left\<close> and \<^verbatim>\<open>right\<close>. \<^verbatim>\<open>>> 1\<close> is \<open>drop_bit 1\<close>. The recursion
  is well-founded on the width \<open>right - left + 1\<close> of the interval.
\<close>

function binary_search_loop :: "'a::linorder list \<Rightarrow> 'a \<Rightarrow> int \<Rightarrow> int \<Rightarrow> int run" where
  "binary_search_loop S item left right =
     (if left \<le> right then
        (let mid = left + drop_bit 1 (right - left) in
         fetch S mid (\<lambda>mid_value.
           if mid_value = item then ([], Inr mid)
           else if mid_value < item then binary_search_loop S item (mid + 1) right
           else binary_search_loop S item left (mid - 1)))
      else ([], Inr (- 1)))"
  by pat_completeness auto
termination
  by (relation "measure (\<lambda>(S, item, left, right). nat (right - left + 1))")
     (auto simp: drop_bit_eq_div)

definition binary_search :: "'a::linorder list \<Rightarrow> 'a \<Rightarrow> int run" where
  "binary_search S item = binary_search_loop S item 0 (int (length S) - 1)"

section \<open>binary\_search\_with\_bounds\<close>

text \<open>
  The loop of \<^verbatim>\<open>binary_search_with_bounds\<close> (lines 68 to 81) is written a second time
  in the source, so it is a second function here.
\<close>

function bounds_loop :: "'a::linorder list \<Rightarrow> 'a \<Rightarrow> int \<Rightarrow> int \<Rightarrow> int run" where
  "bounds_loop S item left right =
     (if left \<le> right then
        (let mid = left + drop_bit 1 (right - left) in
         fetch S mid (\<lambda>mid_value.
           if mid_value = item then ([], Inr mid)
           else if mid_value < item then bounds_loop S item (mid + 1) right
           else bounds_loop S item left (mid - 1)))
      else ([], Inr (- 1)))"
  by pat_completeness auto
termination
  by (relation "measure (\<lambda>(S, item, left, right). nat (right - left + 1))")
     (auto simp: drop_bit_eq_div)

text \<open>
  \<^verbatim>\<open>right: Optional[int] = None\<close>: \<open>None\<close> is the omitted argument, replaced by
  \<^verbatim>\<open>len(sorted_collection) - 1\<close>. The default \<^verbatim>\<open>left = 0\<close> is passed by the caller.
\<close>

definition binary_search_with_bounds ::
  "'a::linorder list \<Rightarrow> 'a \<Rightarrow> int \<Rightarrow> int option \<Rightarrow> int run" where
  "binary_search_with_bounds S item left right =
     bounds_loop S item left (case right of None \<Rightarrow> int (length S) - 1 | Some r \<Rightarrow> r)"

section \<open>exponential\_search\<close>

text \<open>
  The doubling loop \<^verbatim>\<open>while bound < length and sorted_collection[bound] < item\<close>
  (line 102), on the loop variable \<^verbatim>\<open>bound\<close>; \<^verbatim>\<open><<= 1\<close> is \<open>push_bit 1\<close>. It returns
  the value of \<^verbatim>\<open>bound\<close> after the loop. As a loop on an arbitrary integer it need not
  end (from \<open>bound = 0\<close> it would not), so its result is an option, \<open>None\<close> for a loop
  that runs forever; that it ends from \<open>bound = 1\<close> is proved below.
\<close>

partial_function (option) exponential_probe ::
  "'a::linorder list \<Rightarrow> 'a \<Rightarrow> int \<Rightarrow> int run option" where
  "exponential_probe S item bound =
     (if bound < int (length S) then
        (case getitem S bound of
           Inl e \<Rightarrow> Some ([bound], Inl e)
         | Inr x \<Rightarrow>
             if x < item then
               Option.bind (exponential_probe S item (push_bit 1 bound))
                 (\<lambda>r. Some (probe bound r))
             else Some ([bound], Inr bound))
      else Some ([], Inr bound))"

declare exponential_probe.simps [code]

definition exponential_search :: "'a::linorder list \<Rightarrow> 'a \<Rightarrow> int run option" where
  "exponential_search S item =
     (if S = [] then Some ([], Inr (- 1))
      else
        (case exponential_probe S item 1 of
           None \<Rightarrow> None
         | Some (reads, Inl e) \<Rightarrow> Some (reads, Inl e)
         | Some (reads, Inr bound) \<Rightarrow>
             (let left = drop_bit 1 bound;
                  right = min bound (int (length S) - 1);
                  r = binary_search_with_bounds S item left (Some right)
              in Some (reads @ accesses r, outcome r))))"

section \<open>Python numbers\<close>

text \<open>
  \<^verbatim>\<open>interpolation_search\<close> computes with its elements, so its sequences hold Python
  numbers: an \<^verbatim>\<open>int\<close> (unbounded) or a \<^verbatim>\<open>float\<close> (an IEEE double). A finite double
  is the rational number it denotes; \<open>PosInf\<close>, \<open>NegInf\<close> and \<open>NaN\<close> are the three
  special values. The two zeros of IEEE arithmetic are one value here: the code only
  compares, subtracts, multiplies, divides and truncates, a zero divisor raises whatever
  its sign, and none of these tells the zeros apart.
\<close>

datatype pyfloat = Finite rat | PosInf | NegInf | NaN

datatype pynum = PyInt int | PyFloat pyfloat

text \<open>
  Rounding of an exact result to a double, to nearest with ties to even, as every IEEE
  operation and every conversion does. A double is \<open>m * 2 ^ qe\<close> with
  \<open>m < 2 ^ 53\<close> and \<open>- 1074 \<le> qe \<le> 971\<close>; \<open>exponent a\<close> is the integer \<open>e\<close>
  with \<open>2 ^ e \<le> a < 2 ^ (e + 1)\<close>, for \<open>a > 0\<close>. What rounds beyond the largest
  double, \<open>(2 ^ 53 - 1) * 2 ^ 971\<close>, becomes an infinity.
\<close>

definition pow2 :: "int \<Rightarrow> rat" where
  "pow2 e = (if 0 \<le> e then 2 ^ nat e else 1 / 2 ^ nat (- e))"

function ilog2 :: "int \<Rightarrow> int" where
  "ilog2 n = (if n < 2 then 0 else 1 + ilog2 (drop_bit 1 n))"
  by pat_completeness auto
termination
  by (relation "measure nat") (auto simp: drop_bit_eq_div)

definition exponent :: "rat \<Rightarrow> int" where
  "exponent a =
     (let (p, q) = quotient_of a;
          e = ilog2 p - ilog2 q
      in if pow2 e \<le> a then e else e - 1)"

definition round_half_even :: "rat \<Rightarrow> int" where
  "round_half_even x =
     (let f = \<lfloor>x\<rfloor>; d = x - of_int f
      in if d < 1 / 2 then f else if 1 / 2 < d then f + 1 else if even f then f else f + 1)"

definition round_double :: "rat \<Rightarrow> pyfloat" where
  "round_double x =
     (if x = 0 then Finite 0
      else
        (let a = \<bar>x\<bar>;
             qe = max (exponent a - 52) (- 1074)
         in if 971 < qe then (if 0 < x then PosInf else NegInf)
            else
              (let m = round_half_even (a / pow2 qe)
               in if qe = 971 \<and> 2 ^ 53 \<le> m then (if 0 < x then PosInf else NegInf)
                  else Finite (if 0 < x then of_int m * pow2 qe else - (of_int m * pow2 qe)))))"

text \<open>
  Comparison. Python compares an \<^verbatim>\<open>int\<close> with a \<^verbatim>\<open>float\<close> by their exact values,
  without rounding the integer; \<open>NaN\<close> compares false with everything, itself
  included.
\<close>

definition exact :: "pynum \<Rightarrow> pyfloat" where
  "exact x = (case x of PyInt i \<Rightarrow> Finite (of_int i) | PyFloat f \<Rightarrow> f)"

fun float_le :: "pyfloat \<Rightarrow> pyfloat \<Rightarrow> bool" where
  "float_le NaN _ = False"
| "float_le _ NaN = False"
| "float_le NegInf _ = True"
| "float_le _ PosInf = True"
| "float_le (Finite a) (Finite b) = (a \<le> b)"
| "float_le _ _ = False"

definition float_eq :: "pyfloat \<Rightarrow> pyfloat \<Rightarrow> bool" where
  "float_eq a b = (a \<noteq> NaN \<and> a = b)"

definition py_le :: "pynum \<Rightarrow> pynum \<Rightarrow> bool" where
  "py_le x y = float_le (exact x) (exact y)"

definition py_eq :: "pynum \<Rightarrow> pynum \<Rightarrow> bool" where
  "py_eq x y = float_eq (exact x) (exact y)"

definition py_lt :: "pynum \<Rightarrow> pynum \<Rightarrow> bool" where
  "py_lt x y = (float_le (exact x) (exact y) \<and> \<not> float_eq (exact x) (exact y))"

text \<open>
  Arithmetic. Two integers are subtracted and multiplied exactly. As soon as one operand
  is a \<^verbatim>\<open>float\<close> the other is converted to a double, which raises
  \<^verbatim>\<open>OverflowError\<close> for an integer too large, and the operation is the IEEE one: it
  rounds, overflows to an infinity and gives \<open>NaN\<close> for \<open>inf - inf\<close>, \<open>inf * 0\<close>
  and \<open>inf / inf\<close>, without raising.
\<close>

definition to_float :: "pynum \<Rightarrow> error + pyfloat" where
  "to_float x =
     (case x of
        PyFloat f \<Rightarrow> Inr f
      | PyInt i \<Rightarrow> (case round_double (of_int i) of Finite r \<Rightarrow> Inr (Finite r) | _ \<Rightarrow> Inl OverflowError))"

fun float_sub :: "pyfloat \<Rightarrow> pyfloat \<Rightarrow> pyfloat" where
  "float_sub NaN _ = NaN"
| "float_sub _ NaN = NaN"
| "float_sub PosInf PosInf = NaN"
| "float_sub NegInf NegInf = NaN"
| "float_sub PosInf _ = PosInf"
| "float_sub NegInf _ = NegInf"
| "float_sub _ PosInf = NegInf"
| "float_sub _ NegInf = PosInf"
| "float_sub (Finite a) (Finite b) = round_double (a - b)"

fun float_sgn :: "pyfloat \<Rightarrow> rat" where
  "float_sgn (Finite a) = sgn a"
| "float_sgn PosInf = 1"
| "float_sgn NegInf = - 1"
| "float_sgn NaN = 0"

definition signed_inf :: "rat \<Rightarrow> pyfloat" where
  "signed_inf s = (if s = 0 then NaN else if 0 < s then PosInf else NegInf)"

fun float_mul :: "pyfloat \<Rightarrow> pyfloat \<Rightarrow> pyfloat" where
  "float_mul NaN _ = NaN"
| "float_mul _ NaN = NaN"
| "float_mul (Finite a) (Finite b) = round_double (a * b)"
| "float_mul a b = signed_inf (float_sgn a * float_sgn b)"

fun float_div :: "pyfloat \<Rightarrow> pyfloat \<Rightarrow> pyfloat" where
  "float_div NaN _ = NaN"
| "float_div _ NaN = NaN"
| "float_div (Finite a) (Finite b) = round_double (a / b)"
| "float_div (Finite a) _ = Finite 0"
| "float_div a (Finite b) = signed_inf (float_sgn a * sgn b)"
| "float_div _ _ = NaN"

definition and_then :: "error + 'a \<Rightarrow> ('a \<Rightarrow> error + 'b) \<Rightarrow> error + 'b" where
  "and_then x f = (case x of Inl e \<Rightarrow> Inl e | Inr v \<Rightarrow> f v)"

definition num_sub :: "pynum \<Rightarrow> pynum \<Rightarrow> error + pynum" where
  "num_sub x y =
     (case (x, y) of
        (PyInt a, PyInt b) \<Rightarrow> Inr (PyInt (a - b))
      | _ \<Rightarrow> and_then (to_float x) (\<lambda>a. and_then (to_float y) (\<lambda>b. Inr (PyFloat (float_sub a b)))))"

definition num_mul :: "pynum \<Rightarrow> pynum \<Rightarrow> error + pynum" where
  "num_mul x y =
     (case (x, y) of
        (PyInt a, PyInt b) \<Rightarrow> Inr (PyInt (a * b))
      | _ \<Rightarrow> and_then (to_float x) (\<lambda>a. and_then (to_float y) (\<lambda>b. Inr (PyFloat (float_mul a b)))))"

text \<open>
  \<^verbatim>\<open>x / y\<close> is a true division and always gives a \<^verbatim>\<open>float\<close>. A zero divisor raises
  \<^verbatim>\<open>ZeroDivisionError\<close>. The quotient of two integers is the exact quotient rounded
  once, \<^verbatim>\<open>OverflowError\<close> if that is no finite double.
\<close>

definition num_truediv :: "pynum \<Rightarrow> pynum \<Rightarrow> error + pyfloat" where
  "num_truediv x y =
     (case (x, y) of
        (PyInt a, PyInt b) \<Rightarrow>
          if b = 0 then Inl ZeroDivisionError
          else (case round_double (of_int a / of_int b) of
                  Finite r \<Rightarrow> Inr (Finite r) | _ \<Rightarrow> Inl OverflowError)
      | _ \<Rightarrow>
          and_then (to_float x) (\<lambda>a. and_then (to_float y) (\<lambda>b.
            if b = Finite 0 then Inl ZeroDivisionError else Inr (float_div a b))))"

text \<open>
  \<^verbatim>\<open>int(x)\<close> of a \<^verbatim>\<open>float\<close> truncates towards zero; it raises \<^verbatim>\<open>OverflowError\<close>
  on an infinity and \<^verbatim>\<open>ValueError\<close> on \<open>NaN\<close>.
\<close>

definition py_int :: "pyfloat \<Rightarrow> error + int" where
  "py_int f =
     (case f of
        Finite r \<Rightarrow> Inr (if 0 \<le> r then \<lfloor>r\<rfloor> else \<lceil>r\<rceil>)
      | NaN \<Rightarrow> Inl ValueError
      | _ \<Rightarrow> Inl OverflowError)"

section \<open>interpolation\_search\<close>

text \<open>
  The two halves of the estimate of line 130: \<open>numerator item lo width\<close> is
  \<^verbatim>\<open>(item - sorted_collection[left]) * (right - left)\<close>, and \<open>estimate n hi lo\<close> is
  \<^verbatim>\<open>int(n / (sorted_collection[right] - sorted_collection[left]))\<close>. Python evaluates
  the first before it reads the elements of the second.
\<close>

definition numerator :: "pynum \<Rightarrow> pynum \<Rightarrow> int \<Rightarrow> error + pynum" where
  "numerator item lo width = and_then (num_sub item lo) (\<lambda>d. num_mul d (PyInt width))"

definition estimate :: "pynum \<Rightarrow> pynum \<Rightarrow> pynum \<Rightarrow> error + int" where
  "estimate n hi lo = and_then (num_sub hi lo) (\<lambda>w. and_then (num_truediv n w) py_int)"

text \<open>
  \<open>attempt x k\<close> goes on with the value of \<open>x\<close>, or ends the run with the exception
  that \<open>x\<close> raised.
\<close>

definition attempt :: "error + 'b \<Rightarrow> ('b \<Rightarrow> 'r run) \<Rightarrow> 'r run" where
  "attempt x k = (case x of Inl e \<Rightarrow> ([], Inl e) | Inr v \<Rightarrow> k v)"

lemma attempt_cong [fundef_cong]:
  "x = y \<Longrightarrow> (\<And>v. y = Inr v \<Longrightarrow> k v = k' v) \<Longrightarrow> attempt x k = attempt y k'"
  by (simp add: attempt_def split: sum.splits)

text \<open>
  The loop of \<^verbatim>\<open>interpolation_search\<close> (lines 124 to 146). Every
  \<^verbatim>\<open>sorted_collection[...]\<close> of the source is one \<open>fetch\<close>, in the order Python evaluates
  them: the chained comparison \<^verbatim>\<open>a <= item <= b\<close> reads \<^verbatim>\<open>b\<close> only when
  \<^verbatim>\<open>a <= item\<close> holds, and the \<^verbatim>\<open>and\<close> reads nothing when \<^verbatim>\<open>left <= right\<close> fails.
  The recursion is well-founded on the width \<open>right - left + 1\<close>, because the position
  is clamped between \<open>left\<close> and \<open>right\<close>.
\<close>

function interpolation_loop :: "pynum list \<Rightarrow> pynum \<Rightarrow> int \<Rightarrow> int \<Rightarrow> int run" where
  "interpolation_loop S item left right =
     (if left \<le> right then
        fetch S left (\<lambda>lo. if py_le lo item then
        fetch S right (\<lambda>hi. if py_le item hi then
          fetch S left (\<lambda>lo1. fetch S right (\<lambda>hi1.
            if py_eq lo1 hi1 then
              fetch S left (\<lambda>lo2. ([], Inr (if py_eq lo2 item then left else - 1)))
            else
              fetch S left (\<lambda>lo3.
              attempt (numerator item lo3 (right - left)) (\<lambda>n.
              fetch S right (\<lambda>hi3. fetch S left (\<lambda>lo4.
              attempt (estimate n hi3 lo4) (\<lambda>est.
                (let pos = left + est;
                     pos = max left (min pos right)
                 in fetch S pos (\<lambda>v. if py_eq v item then ([], Inr pos)
                    else fetch S pos (\<lambda>v'.
                      if py_lt v' item then interpolation_loop S item (pos + 1) right
                      else interpolation_loop S item left (pos - 1)))))))))))
        else ([], Inr (- 1)))
        else ([], Inr (- 1)))
      else ([], Inr (- 1)))"
  by pat_completeness auto
termination
  by (relation "measure (\<lambda>(S, item, left, right). nat (right - left + 1))") auto

definition interpolation_search :: "pynum list \<Rightarrow> pynum \<Rightarrow> int run" where
  "interpolation_search S item = interpolation_loop S item 0 (int (length S) - 1)"

text \<open>
  The double \<^verbatim>\<open>2.0 ** 1023\<close>, about \<^verbatim>\<open>8.98846567431158e+307\<close>: the largest power of
  two that is a double.
\<close>

definition huge :: rat where
  "huge = 2 ^ 1023"

section \<open>Sub-sequences and index offsets\<close>

text \<open>
  The sub-sequence of the elements at the indices \<open>low\<close>, ..., \<open>high\<close> (both
  included), and a run on such a sub-sequence read as a run on the whole sequence:
  every index moves up by \<open>low\<close>, the value \<open>-1\<close> for "not found" stays.
\<close>

definition subsequence :: "'a list \<Rightarrow> int \<Rightarrow> int \<Rightarrow> 'a list" where
  "subsequence S low high = take (nat (high - low + 1)) (drop (nat low) S)"

definition offset_by :: "int \<Rightarrow> int run \<Rightarrow> int run" where
  "offset_by low r =
     (map (\<lambda>i. i + low) (accesses r),
      case outcome r of Inl e \<Rightarrow> Inl e | Inr i \<Rightarrow> Inr (if i = - 1 then - 1 else i + low))"

section \<open>Facts about indexing and the bisection loops\<close>

declare binary_search_loop.simps [simp del] bounds_loop.simps [simp del]
  interpolation_loop.simps [simp del] ilog2.simps [simp del]

lemma getitem_in_range:
  "0 \<le> i \<Longrightarrow> i < int (length xs) \<Longrightarrow> getitem xs i = Inr (xs ! nat i)"
  by (simp add: getitem_def)

lemma fetch_in_range:
  "0 \<le> i \<Longrightarrow> i < int (length xs) \<Longrightarrow> fetch xs i k = probe i (k (xs ! nat i))"
  by (simp add: fetch_def getitem_in_range)

lemma mid_bounds:
  "left \<le> right \<Longrightarrow> mid = left + (right - left) div 2 \<Longrightarrow> left \<le> mid \<and> mid \<le> (right::int)"
  by simp

lemma loops_agree: "binary_search_loop S item left right = bounds_loop S item left right"
proof (induction S item left right rule: binary_search_loop.induct)
  case (1 S item left right)
  show ?case
  proof (cases "left \<le> right")
    case False
    then show ?thesis by (simp add: binary_search_loop.simps bounds_loop.simps)
  next
    case True
    show ?thesis
      apply (subst binary_search_loop.simps)
      apply (subst bounds_loop.simps)
      apply (simp only: True if_True Let_def)
      apply (rule fetch_cong [OF refl refl])
      using 1 [OF True refl] apply auto
      done
  qed
qed

lemma bounds_loop_empty: "right < left \<Longrightarrow> bounds_loop S item left right = ([], Inr (- 1))"
  by (simp add: bounds_loop.simps)

lemma bounds_loop_step:
  assumes "left \<le> right" "0 \<le> left" "right < int (length S)"
    and "mid = left + (right - left) div 2"
  shows "bounds_loop S item left right =
       probe mid (if S ! nat mid = item then ([], Inr mid)
         else if S ! nat mid < item then bounds_loop S item (mid + 1) right
         else bounds_loop S item left (mid - 1))"
proof -
  from assms have "0 \<le> mid" "mid < int (length S)" by simp_all
  then show ?thesis
    using assms(1,4) by (subst bounds_loop.simps) (simp add: Let_def fetch_in_range drop_bit_eq_div)
qed

lemma bounds_loop_unfold:
  assumes "left \<le> right" and "mid = left + (right - left) div 2"
  shows "bounds_loop S item left right =
       fetch S mid (\<lambda>mid_value.
           if mid_value = item then ([], Inr mid)
           else if mid_value < item then bounds_loop S item (mid + 1) right
           else bounds_loop S item left (mid - 1))"
  unfolding assms(2)
  by (subst bounds_loop.simps) (simp only: assms(1) if_True Let_def drop_bit_eq_div power_one_right)

lemma bounds_loop_sound:
  "0 \<le> left \<Longrightarrow> right < int (length S) \<Longrightarrow>
     outcome (bounds_loop S item left right) = Inr (- 1) \<or>
     (\<exists>i. outcome (bounds_loop S item left right) = Inr i \<and> left \<le> i \<and> i \<le> right \<and> S ! nat i = item)"
proof (induction "nat (right - left + 1)" arbitrary: left right rule: less_induct)
  case less
  show ?case
  proof (cases "left \<le> right")
    case False
    then show ?thesis by (simp add: bounds_loop.simps)
  next
    case True
    define mid where "mid = left + (right - left) div 2"
    have m: "left \<le> mid" "mid \<le> right" using mid_bounds [OF True mid_def] by simp_all
    have step: "bounds_loop S item left right =
       probe mid (if S ! nat mid = item then ([], Inr mid)
         else if S ! nat mid < item then bounds_loop S item (mid + 1) right
         else bounds_loop S item left (mid - 1))"
      by (rule bounds_loop_step [OF True less.prems mid_def])
    consider (eq) "S ! nat mid = item" | (lt) "S ! nat mid \<noteq> item" "S ! nat mid < item"
      | (gt) "S ! nat mid \<noteq> item" "\<not> S ! nat mid < item" by blast
    then show ?thesis
    proof cases
      case eq
      then show ?thesis using m by (simp add: step probe_def)
    next
      case lt
      have "nat (right - (mid + 1) + 1) < nat (right - left + 1)" using m by linarith
      from less.hyps [OF this] less.prems m
      have "outcome (bounds_loop S item (mid + 1) right) = Inr (- 1) \<or>
        (\<exists>i. outcome (bounds_loop S item (mid + 1) right) = Inr i \<and> mid + 1 \<le> i \<and> i \<le> right \<and> S ! nat i = item)"
        by simp
      then show ?thesis using lt m by (auto simp: step probe_def)
    next
      case gt
      have "nat (mid - 1 - left + 1) < nat (right - left + 1)" using m by linarith
      from less.hyps [OF this] less.prems m
      have "outcome (bounds_loop S item left (mid - 1)) = Inr (- 1) \<or>
        (\<exists>i. outcome (bounds_loop S item left (mid - 1)) = Inr i \<and> left \<le> i \<and> i \<le> mid - 1 \<and> S ! nat i = item)"
        by simp
      then show ?thesis using gt m by (auto simp: step probe_def)
    qed
  qed
qed

lemma bounds_loop_complete:
  assumes "sorted S"
  shows "0 \<le> left \<Longrightarrow> right < int (length S) \<Longrightarrow> left \<le> j \<Longrightarrow> j \<le> right \<Longrightarrow> S ! nat j = item
     \<Longrightarrow> outcome (bounds_loop S item left right) \<noteq> Inr (- 1)"
proof (induction "nat (right - left + 1)" arbitrary: left right rule: less_induct)
  case less
  have True: "left \<le> right" using less.prems by linarith
  define mid where "mid = left + (right - left) div 2"
  have m: "left \<le> mid" "mid \<le> right" using mid_bounds [OF True mid_def] by simp_all
  have step: "bounds_loop S item left right =
     probe mid (if S ! nat mid = item then ([], Inr mid)
       else if S ! nat mid < item then bounds_loop S item (mid + 1) right
       else bounds_loop S item left (mid - 1))"
    by (rule bounds_loop_step [OF True less.prems(1,2) mid_def])
  consider (eq) "S ! nat mid = item" | (lt) "S ! nat mid \<noteq> item" "S ! nat mid < item"
    | (gt) "S ! nat mid \<noteq> item" "\<not> S ! nat mid < item" by blast
  then show ?case
  proof cases
    case eq
    then show ?thesis using m less.prems by (simp add: step probe_def)
  next
    case lt
    have "mid < j"
    proof (rule ccontr)
      assume "\<not> mid < j"
      then have "nat j \<le> nat mid" "nat mid < length S" using m less.prems by linarith+
      then have "S ! nat j \<le> S ! nat mid" using assms by (simp add: sorted_nth_mono)
      then show False using lt less.prems by simp
    qed
    moreover have "nat (right - (mid + 1) + 1) < nat (right - left + 1)" using m by linarith
    ultimately have "outcome (bounds_loop S item (mid + 1) right) \<noteq> Inr (- 1)"
      using less.hyps [of right "mid + 1"] less.prems m by simp
    then show ?thesis using lt by (simp add: step probe_def)
  next
    case gt
    have "j < mid"
    proof (rule ccontr)
      assume "\<not> j < mid"
      then have "nat mid \<le> nat j" "nat j < length S" using m less.prems by linarith+
      then have "S ! nat mid \<le> S ! nat j" using assms by (simp add: sorted_nth_mono)
      then show False using gt less.prems by simp
    qed
    moreover have "nat (mid - 1 - left + 1) < nat (right - left + 1)" using m by linarith
    ultimately have "outcome (bounds_loop S item left (mid - 1)) \<noteq> Inr (- 1)"
      using less.hyps [of "mid - 1" left] less.prems m by simp
    then show ?thesis using gt by (simp add: step probe_def)
  qed
qed

lemma bounds_loop_accesses:
  "0 \<le> left \<Longrightarrow> right < int (length S) \<Longrightarrow> i \<in> set (accesses (bounds_loop S item left right))
     \<Longrightarrow> left \<le> i \<and> i \<le> right"
proof (induction "nat (right - left + 1)" arbitrary: left right rule: less_induct)
  case less
  show ?case
  proof (cases "left \<le> right")
    case False
    then show ?thesis using less.prems by (simp add: bounds_loop.simps)
  next
    case True
    define mid where "mid = left + (right - left) div 2"
    have m: "left \<le> mid" "mid \<le> right" using mid_bounds [OF True mid_def] by simp_all
    have step: "bounds_loop S item left right =
       probe mid (if S ! nat mid = item then ([], Inr mid)
         else if S ! nat mid < item then bounds_loop S item (mid + 1) right
         else bounds_loop S item left (mid - 1))"
      by (rule bounds_loop_step [OF True less.prems(1,2) mid_def])
    have up: "i \<in> set (accesses (bounds_loop S item (mid + 1) right)) \<Longrightarrow> mid + 1 \<le> i \<and> i \<le> right"
      using less.hyps [of right "mid + 1"] less.prems m by simp
    have down: "i \<in> set (accesses (bounds_loop S item left (mid - 1))) \<Longrightarrow> left \<le> i \<and> i \<le> mid - 1"
      using less.hyps [of "mid - 1" left] less.prems m by simp
    show ?thesis using less.prems(3) up down m
      by (auto simp: step probe_def split: if_splits)
  qed
qed

lemma bounds_loop_length:
  "length (accesses (bounds_loop S item left right)) \<le> nat (right - left + 1)"
proof (induction S item left right rule: bounds_loop.induct)
  case (1 S item left right)
  show ?case
  proof (cases "left \<le> right")
    case False
    then show ?thesis by (simp add: bounds_loop.simps)
  next
    case True
    define mid where "mid = left + (right - left) div 2"
    have m: "left \<le> mid" "mid \<le> right" using mid_bounds [OF True mid_def] by simp_all
    have step: "bounds_loop S item left right =
       fetch S mid (\<lambda>mid_value.
           if mid_value = item then ([], Inr mid)
           else if mid_value < item then bounds_loop S item (mid + 1) right
           else bounds_loop S item left (mid - 1))"
      by (rule bounds_loop_unfold [OF True mid_def])
    show ?thesis
    proof (cases "getitem S mid")
      case (Inl e)
      then show ?thesis using True by (simp add: step fetch_def)
    next
      case (Inr x)
      have md: "mid = left + drop_bit 1 (right - left)" by (simp add: mid_def drop_bit_eq_div)
      from 1 [OF True md Inr] m
      have "x \<noteq> item \<Longrightarrow> x < item \<Longrightarrow> length (accesses (bounds_loop S item (mid + 1) right)) \<le> nat (right - left)"
        and "x \<noteq> item \<Longrightarrow> \<not> x < item \<Longrightarrow> length (accesses (bounds_loop S item left (mid - 1))) \<le> nat (right - left)"
        by force+
      then show ?thesis using True Inr m
        by (auto simp: step fetch_def probe_def)
    qed
  qed
qed

lemma subsequence_length:
  "0 \<le> low \<Longrightarrow> low \<le> high \<Longrightarrow> high < int (length S) \<Longrightarrow>
     int (length (subsequence S low high)) = high - low + 1"
  by (simp add: subsequence_def)

lemma subsequence_nth:
  "0 \<le> low \<Longrightarrow> high < int (length S) \<Longrightarrow> 0 \<le> k \<Longrightarrow> k \<le> high - low \<Longrightarrow>
     subsequence S low high ! nat k = S ! nat (low + k)"
  by (simp add: subsequence_def nat_add_distrib)

lemma bounds_loop_offset:
  assumes "0 \<le> low" "low \<le> high" "high < int (length S)"
  shows "0 \<le> l \<Longrightarrow> r \<le> high - low \<Longrightarrow>
    bounds_loop S item (low + l) (low + r) = offset_by low (bounds_loop (subsequence S low high) item l r)"
proof (induction "nat (r - l + 1)" arbitrary: l r rule: less_induct)
  case less
  let ?T = "subsequence S low high"
  show ?case
  proof (cases "l \<le> r")
    case False
    then show ?thesis by (simp add: bounds_loop.simps offset_by_def)
  next
    case True
    define mid where "mid = l + (r - l) div 2"
    have m: "l \<le> mid" "mid \<le> r" using mid_bounds [OF True mid_def] by simp_all
    have T: "bounds_loop ?T item l r =
       probe mid (if ?T ! nat mid = item then ([], Inr mid)
         else if ?T ! nat mid < item then bounds_loop ?T item (mid + 1) r
         else bounds_loop ?T item l (mid - 1))"
      by (rule bounds_loop_step [OF True less.prems(1) _ mid_def])
         (use less.prems subsequence_length [OF assms] in simp)
    have S: "bounds_loop S item (low + l) (low + r) =
       probe (low + mid) (if S ! nat (low + mid) = item then ([], Inr (low + mid))
         else if S ! nat (low + mid) < item then bounds_loop S item (low + mid + 1) (low + r)
         else bounds_loop S item (low + l) (low + mid - 1))"
      by (rule bounds_loop_step) (use True less.prems assms in \<open>simp_all add: mid_def\<close>)
    have nth: "?T ! nat mid = S ! nat (low + mid)"
      using subsequence_nth [of low high S mid] assms less.prems m by simp
    have up: "bounds_loop S item (low + mid + 1) (low + r) = offset_by low (bounds_loop ?T item (mid + 1) r)"
      using less.hyps [of r "mid + 1"] less.prems m by (simp add: add.assoc)
    have down: "bounds_loop S item (low + l) (low + mid - 1) = offset_by low (bounds_loop ?T item l (mid - 1))"
      using less.hyps [of "mid - 1" l] less.prems m by (simp add: algebra_simps)
    have mid_nonneg: "mid \<noteq> - 1" using m less.prems by simp
    show ?thesis
      unfolding S T nth up down using mid_nonneg
      by (simp add: offset_by_def probe_def add.commute)
  qed
qed

section \<open>Facts about the doubling loop\<close>

lemma exponential_probe_returns:
  "1 \<le> bound \<Longrightarrow>
     \<exists>reads b. exponential_probe S item bound = Some (reads, Inr b)
       \<and> bound \<le> b
       \<and> (\<forall>i\<in>set reads. bound \<le> i \<and> i < int (length S))
       \<and> length reads \<le> nat (int (length S) - bound)
       \<and> (int (length S) \<le> b \<or> \<not> S ! nat b < item)
       \<and> (b = bound \<or> (bound \<le> b div 2 \<and> b div 2 < int (length S) \<and> S ! nat (b div 2) < item))"
proof (induction "nat (int (length S) - bound)" arbitrary: bound rule: less_induct)
  case less
  show ?case
  proof (cases "bound < int (length S)")
    case False
    then show ?thesis by (subst exponential_probe.simps) simp
  next
    case True
    have get: "getitem S bound = Inr (S ! nat bound)"
      using True less.prems by (simp add: getitem_in_range)
    show ?thesis
    proof (cases "S ! nat bound < item")
      case False
      then show ?thesis using True get by (subst exponential_probe.simps) simp
    next
      case lt: True
      have "nat (int (length S) - 2 * bound) < nat (int (length S) - bound)"
        using True less.prems by linarith
      from less.hyps [OF this] less.prems
      obtain reads b where rec: "exponential_probe S item (2 * bound) = Some (reads, Inr b)"
        and b: "2 * bound \<le> b"
        and reads: "\<forall>i\<in>set reads. 2 * bound \<le> i \<and> i < int (length S)"
        and len: "length reads \<le> nat (int (length S) - 2 * bound)"
        and stop: "int (length S) \<le> b \<or> \<not> S ! nat b < item"
        and prev: "b = 2 * bound \<or> (2 * bound \<le> b div 2 \<and> b div 2 < int (length S) \<and> S ! nat (b div 2) < item)"
        by force
      have eq: "exponential_probe S item bound = Some (bound # reads, Inr b)"
        using True get lt rec
        by (subst exponential_probe.simps) (simp add: push_bit_eq_mult probe_def mult.commute)
      have "bound \<le> b div 2 \<and> b div 2 < int (length S) \<and> S ! nat (b div 2) < item"
        using prev True lt less.prems by auto
      moreover have "length (bound # reads) \<le> nat (int (length S) - bound)"
        using len True less.prems by simp
      moreover have "\<forall>i\<in>set (bound # reads). bound \<le> i \<and> i < int (length S)"
        using reads True less.prems by auto
      ultimately show ?thesis using eq b stop less.prems by auto
    qed
  qed
qed

lemma exponential_search_returns:
  assumes "S \<noteq> []"
  shows "\<exists>reads b left right.
       exponential_probe S item 1 = Some (reads, Inr b)
     \<and> left = b div 2 \<and> right = min b (int (length S) - 1)
     \<and> exponential_search S item
         = Some (reads @ accesses (bounds_loop S item left right), outcome (bounds_loop S item left right))
     \<and> 0 \<le> left \<and> right < int (length S) \<and> 1 \<le> b
     \<and> (\<forall>i\<in>set reads. 1 \<le> i \<and> i < int (length S))
     \<and> length reads \<le> length S - 1
     \<and> (int (length S) \<le> b \<or> \<not> S ! nat b < item)
     \<and> (b = 1 \<or> (b div 2 < int (length S) \<and> S ! nat (b div 2) < item))"
proof -
  from exponential_probe_returns [of 1 S item]
  obtain reads b where p: "exponential_probe S item 1 = Some (reads, Inr b)" "1 \<le> b"
    "\<forall>i\<in>set reads. 1 \<le> i \<and> i < int (length S)" "length reads \<le> nat (int (length S) - 1)"
    "int (length S) \<le> b \<or> \<not> S ! nat b < item"
    "b = 1 \<or> (1 \<le> b div 2 \<and> b div 2 < int (length S) \<and> S ! nat (b div 2) < item)"
    by force
  have "exponential_search S item
         = Some (reads @ accesses (bounds_loop S item (b div 2) (min b (int (length S) - 1))),
                 outcome (bounds_loop S item (b div 2) (min b (int (length S) - 1))))"
    using assms p(1)
    by (simp add: exponential_search_def binary_search_with_bounds_def Let_def drop_bit_eq_div)
  moreover have "0 \<le> b div 2" using p(2) by simp
  moreover have "min b (int (length S) - 1) < int (length S)" by simp
  moreover have "length reads \<le> length S - 1" using p(4) by simp
  ultimately show ?thesis using p by blast
qed

lemma sorted_nth_int:
  "sorted S \<Longrightarrow> 0 \<le> i \<Longrightarrow> i \<le> j \<Longrightarrow> j < int (length S) \<Longrightarrow> S ! nat i \<le> S ! nat j"
  by (rule sorted_nth_mono) simp_all

lemma exponential_range:
  assumes "sorted S" and k: "0 \<le> k" "k < int (length S)" "S ! nat k = item"
    and b: "1 \<le> b"
    and stop: "int (length S) \<le> b \<or> \<not> S ! nat b < item"
    and prev: "b = 1 \<or> (b div 2 < int (length S) \<and> S ! nat (b div 2) < item)"
  shows "\<exists>j. b div 2 \<le> j \<and> j \<le> min b (int (length S) - 1) \<and> S ! nat j = item"
proof -
  have low: "b div 2 \<le> k"
  proof (cases "b = 1")
    case True
    then show ?thesis using k by simp
  next
    case False
    with prev have p: "b div 2 < int (length S)" "S ! nat (b div 2) < item" by simp_all
    show ?thesis
    proof (rule ccontr)
      assume "\<not> b div 2 \<le> k"
      then have "S ! nat k \<le> S ! nat (b div 2)"
        using sorted_nth_int [OF assms(1) k(1) _ p(1)] by simp
      with p(2) k(3) show False by simp
    qed
  qed
  show ?thesis
  proof (cases "k \<le> b")
    case True
    then show ?thesis using low k by (intro exI [of _ k]) simp
  next
    case False
    then have lt: "b < k" by simp
    then have "b < int (length S)" using k by simp
    with stop have "item \<le> S ! nat b" by simp
    moreover have "S ! nat b \<le> S ! nat k"
      using sorted_nth_int [OF assms(1) _ _ k(2), of b] b lt by simp
    ultimately have "S ! nat b = item" using k(3) by simp
    moreover have "b div 2 \<le> b" using b by simp
    ultimately show ?thesis using \<open>b < int (length S)\<close> by (intro exI [of _ b]) simp
  qed
qed

section \<open>Facts about the interpolation loop\<close>

lemma interpolation_loop_step:
  assumes "left \<le> right" "0 \<le> left" "right < int (length S)"
    and "lo = S ! nat left" "hi = S ! nat right"
  shows "interpolation_loop S item left right =
     (if \<not> py_le lo item then ([left], Inr (- 1))
      else if \<not> py_le item hi then ([left, right], Inr (- 1))
      else if py_eq lo hi then
        ([left, right, left, right, left], Inr (if py_eq lo item then left else - 1))
      else
        (case numerator item lo (right - left) of
           Inl e \<Rightarrow> ([left, right, left, right, left], Inl e)
         | Inr n \<Rightarrow>
             (case estimate n hi lo of
                Inl e \<Rightarrow> ([left, right, left, right, left, right, left], Inl e)
              | Inr est \<Rightarrow>
                  (let pos = max left (min (left + est) right) in
                   if py_eq (S ! nat pos) item then
                     ([left, right, left, right, left, right, left, pos], Inr pos)
                   else if py_lt (S ! nat pos) item then
                     ([left, right, left, right, left, right, left, pos, pos]
                        @ accesses (interpolation_loop S item (pos + 1) right),
                      outcome (interpolation_loop S item (pos + 1) right))
                   else
                     ([left, right, left, right, left, right, left, pos, pos]
                        @ accesses (interpolation_loop S item left (pos - 1)),
                      outcome (interpolation_loop S item left (pos - 1)))))))"
proof -
  have l: "0 \<le> left" "left < int (length S)" and r: "0 \<le> right" "right < int (length S)"
    using assms by simp_all
  have fl: "\<And>k. fetch S left k = probe left (k lo)" using l assms(4) by (simp add: fetch_in_range)
  have fr: "\<And>k. fetch S right k = probe right (k hi)" using r assms(5) by (simp add: fetch_in_range)
  have fp: "fetch S (max left (min (left + est) right)) k
      = probe (max left (min (left + est) right)) (k (S ! nat (max left (min (left + est) right))))"
    for est and k :: "pynum \<Rightarrow> int run"
    using assms(1-3) by (intro fetch_in_range) simp_all
  show ?thesis
    apply (subst interpolation_loop.simps)
    apply (simp only: fl fr assms(1) if_True)
    apply (cases "py_le lo item"; cases "py_le item hi"; cases "py_eq lo hi";
           cases "numerator item lo (right - left)")
    apply (simp_all add: probe_def attempt_def)
    subgoal for n
      by (cases "estimate n hi lo") (simp_all add: probe_def attempt_def Let_def fp)
    done
qed

lemma clamp_bounds:
  "left \<le> right \<Longrightarrow> left \<le> max left (min (left + est) right) \<and> max left (min (left + est) right) \<le> (right::int)"
  by simp

lemma interpolation_loop_accesses:
  "0 \<le> left \<Longrightarrow> right < int (length S) \<Longrightarrow>
     i \<in> set (accesses (interpolation_loop S item left right)) \<Longrightarrow> left \<le> i \<and> i \<le> right"
proof (induction "nat (right - left + 1)" arbitrary: left right rule: less_induct)
  case less
  show ?case
  proof (cases "left \<le> right")
    case False
    then show ?thesis using less.prems by (simp add: interpolation_loop.simps)
  next
    case True
    note step = interpolation_loop_step [OF True less.prems(1,2) refl refl, of item]
    have up: "i \<in> set (accesses (interpolation_loop S item (pos + 1) right)) \<Longrightarrow> left \<le> i \<and> i \<le> right"
      if "left \<le> pos" "pos \<le> right" for pos
      using less.hyps [of right "pos + 1"] less.prems that by force
    have down: "i \<in> set (accesses (interpolation_loop S item left (pos - 1))) \<Longrightarrow> left \<le> i \<and> i \<le> right"
      if "left \<le> pos" "pos \<le> right" for pos
    proof -
      assume a: "i \<in> set (accesses (interpolation_loop S item left (pos - 1)))"
      have "nat (pos - 1 - left + 1) < nat (right - left + 1)" "pos - 1 < int (length S)"
        using that less.prems by linarith+
      from less.hyps [OF this(1) less.prems(1) this(2) a] that show ?thesis by simp
    qed
    show ?thesis
      using less.prems(3) True up [OF conjunct1 [OF clamp_bounds [OF True]] conjunct2 [OF clamp_bounds [OF True]]]
        down [OF conjunct1 [OF clamp_bounds [OF True]] conjunct2 [OF clamp_bounds [OF True]]]
      unfolding step
      by (auto simp: Let_def split: if_splits sum.splits)
  qed
qed

lemma interpolation_loop_length:
  "0 \<le> left \<Longrightarrow> right < int (length S) \<Longrightarrow>
     length (accesses (interpolation_loop S item left right)) \<le> 9 * nat (right - left + 1)"
proof (induction "nat (right - left + 1)" arbitrary: left right rule: less_induct)
  case less
  show ?case
  proof (cases "left \<le> right")
    case False
    then show ?thesis by (simp add: interpolation_loop.simps)
  next
    case True
    note step = interpolation_loop_step [OF True less.prems(1,2) refl refl, of item]
    have up: "length (accesses (interpolation_loop S item (pos + 1) right)) \<le> 9 * nat (right - left)"
      if "left \<le> pos" "pos \<le> right" for pos
    proof -
      have "length (accesses (interpolation_loop S item (pos + 1) right)) \<le> 9 * nat (right - (pos + 1) + 1)"
        using less.hyps [of right "pos + 1"] less.prems that by simp
      also have "\<dots> \<le> 9 * nat (right - left)" using that by simp
      finally show ?thesis .
    qed
    have down: "length (accesses (interpolation_loop S item left (pos - 1))) \<le> 9 * nat (right - left)"
      if "left \<le> pos" "pos \<le> right" for pos
    proof -
      have "length (accesses (interpolation_loop S item left (pos - 1))) \<le> 9 * nat (pos - 1 - left + 1)"
        using less.hyps [of "pos - 1" left] less.prems that by simp
      also have "\<dots> \<le> 9 * nat (right - left)" using that by simp
      finally show ?thesis .
    qed
    have w: "9 * nat (right - left + 1) = 9 + 9 * nat (right - left)"
      using True by (simp add: nat_add_distrib)
    show ?thesis
      unfolding step w
      using up [OF conjunct1 [OF clamp_bounds [OF True]] conjunct2 [OF clamp_bounds [OF True]]]
        down [OF conjunct1 [OF clamp_bounds [OF True]] conjunct2 [OF clamp_bounds [OF True]]]
      by (auto simp: Let_def split: sum.splits)
  qed
qed

lemma interpolation_loop_no_index_error:
  "0 \<le> left \<Longrightarrow> right < int (length S) \<Longrightarrow>
     outcome (interpolation_loop S item left right) \<noteq> Inl IndexError"
proof (induction "nat (right - left + 1)" arbitrary: left right rule: less_induct)
  case less
  show ?case
  proof (cases "left \<le> right")
    case False
    then show ?thesis by (simp add: interpolation_loop.simps)
  next
    case True
    note step = interpolation_loop_step [OF True less.prems(1,2) refl refl, of item]
    have up: "outcome (interpolation_loop S item (pos + 1) right) \<noteq> Inl IndexError"
      if "left \<le> pos" "pos \<le> right" for pos
      using less.hyps [of right "pos + 1"] less.prems that by simp
    have down: "outcome (interpolation_loop S item left (pos - 1)) \<noteq> Inl IndexError"
      if "left \<le> pos" "pos \<le> right" for pos
      using less.hyps [of "pos - 1" left] less.prems that by simp
    have pynum: "numerator item lo w \<noteq> Inl IndexError" for lo w
      by (auto simp: numerator_def num_sub_def num_mul_def and_then_def to_float_def
          split: sum.splits pynum.splits pyfloat.splits prod.splits)
    have est: "estimate n hi lo \<noteq> Inl IndexError" for n hi lo
      by (auto simp: estimate_def num_sub_def num_truediv_def py_int_def and_then_def to_float_def
          split: sum.splits pynum.splits pyfloat.splits prod.splits if_splits)
    show ?thesis
      unfolding step
      using up [OF conjunct1 [OF clamp_bounds [OF True]] conjunct2 [OF clamp_bounds [OF True]]]
        down [OF conjunct1 [OF clamp_bounds [OF True]] conjunct2 [OF clamp_bounds [OF True]]]
        pynum est
      by (auto simp: Let_def split: sum.splits)
  qed
qed

section \<open>Facts about rounding to a double\<close>

lemma ilog2_power2: "ilog2 (2 ^ n) = int n"
proof (induction n)
  case 0
  show ?case by (simp add: ilog2.simps)
next
  case (Suc n)
  have "(1::int) \<le> 2 ^ n" by simp
  then have "(2::int) \<le> 2 ^ Suc n" by simp
  then have "\<not> (2::int) ^ Suc n < 2" by linarith
  moreover have "drop_bit 1 ((2::int) ^ Suc n) = 2 ^ n" by (simp add: drop_bit_eq_div)
  ultimately show ?case using Suc by (subst ilog2.simps) simp
qed

lemma quotient_of_of_int: "quotient_of (of_int a) = (a, 1)"
proof -
  have "quotient_of (Fract a 1) = (a, 1)"
    by (simp add: quotient_of_Fract Rat.normalize_def)
  then show ?thesis by (simp add: Fract_of_int_eq)
qed

lemma exponent_power2: "exponent (2 ^ n) = int n"
proof -
  have "quotient_of ((2::rat) ^ n) = (2 ^ n, 1)"
    using quotient_of_of_int [of "2 ^ n"] by simp
  moreover have "ilog2 1 = 0" by (simp add: ilog2.simps)
  ultimately show ?thesis by (simp add: exponent_def ilog2_power2 pow2_def)
qed

lemma round_half_even_int: "round_half_even (of_int m) = m"
  by (simp add: round_half_even_def)

lemma round_double_power2:
  "round_double (2 ^ (52 + k)) = (if k \<le> 971 then Finite (2 ^ (52 + k)) else PosInf)"
proof (cases "k \<le> 971")
  case False
  then show ?thesis by (simp add: round_double_def exponent_power2)
next
  case True
  define c :: int where "c = 2 ^ 52"
  have c: "(2::rat) ^ 52 = of_int c" by (simp add: c_def)
  have qe: "max (int (52 + k) - 52) (- 1074) = int k" by simp
  have p: "pow2 (int k) = 2 ^ k" by (simp add: pow2_def)
  have m: "(2::rat) ^ (52 + k) / pow2 (int k) = of_int c"
    by (simp only: power_add p c) simp
  have small: "\<not> (int k = 971 \<and> 2 ^ 53 \<le> c)" by (simp add: c_def)
  have pos: "(0::rat) < 2 ^ (52 + k)" "(2::rat) ^ (52 + k) \<noteq> 0" by simp_all
  have abs: "\<bar>(2::rat) ^ (52 + k)\<bar> = 2 ^ (52 + k)" by simp
  have le: "\<not> 971 < int k" using True by simp
  have "round_double (2 ^ (52 + k)) = Finite (of_int c * pow2 (int k))"
    by (simp only: round_double_def Let_def abs exponent_power2 qe m round_half_even_int
        pos le small if_False if_True)
  also have "of_int c * pow2 (int k) = (2::rat) ^ (52 + k)"
    by (simp only: power_add p c)
  finally show ?thesis using True by simp
qed

lemma huge_pos: "0 < huge"
  by (simp add: huge_def)

lemma round_double_huge: "round_double huge = Finite huge"
proof -
  have h: "huge = 2 ^ (52 + 971)" by (simp add: huge_def)
  show ?thesis unfolding h round_double_power2 by simp
qed

lemma round_double_twice_huge: "round_double (huge + huge) = PosInf"
proof -
  have "huge + huge = 2 * 2 ^ 1023" by (simp add: huge_def)
  also have "\<dots> = 2 ^ (52 + 972)" by (simp only: power_Suc [symmetric]) simp
  finally have h: "huge + huge = 2 ^ (52 + 972)" .
  show ?thesis unfolding h round_double_power2 by simp
qed

lemma round_double_2: "round_double 2 = Finite 2"
  by code_simp

section \<open>Correctness of each search on sorted sequences\<close>

lemma binary_search_sorted:
  assumes "sorted S"
  shows "(item \<in> set S \<longrightarrow>
            (\<exists>i. outcome (binary_search S item) = Inr i \<and> 0 \<le> i \<and> i < int (length S) \<and> S ! nat i = item))
       \<and> (item \<notin> set S \<longrightarrow> outcome (binary_search S item) = Inr (- 1))"
proof -
  let ?r = "int (length S) - 1"
  have bs: "binary_search S item = bounds_loop S item 0 ?r"
    by (simp add: binary_search_def loops_agree)
  have snd: "outcome (bounds_loop S item 0 ?r) = Inr (- 1) \<or>
     (\<exists>i. outcome (bounds_loop S item 0 ?r) = Inr i \<and> 0 \<le> i \<and> i \<le> ?r \<and> S ! nat i = item)"
    by (rule bounds_loop_sound) simp_all
  have present: "\<exists>i. outcome (binary_search S item) = Inr i \<and> 0 \<le> i \<and> i < int (length S) \<and> S ! nat i = item"
    if "item \<in> set S"
  proof -
    from that obtain k where k: "k < length S" "S ! k = item" by (auto simp: in_set_conv_nth)
    have "outcome (bounds_loop S item 0 ?r) \<noteq> Inr (- 1)"
      by (rule bounds_loop_complete [OF assms, where j = "int k"]) (use k in simp_all)
    with snd show ?thesis unfolding bs by auto
  qed
  have absent: "outcome (binary_search S item) = Inr (- 1)" if "item \<notin> set S"
  proof (rule ccontr)
    assume "outcome (binary_search S item) \<noteq> Inr (- 1)"
    with snd obtain i where "0 \<le> i" "i \<le> ?r" "S ! nat i = item" unfolding bs by blast
    then have "nat i < length S" "S ! nat i = item" by simp_all
    then have "item \<in> set S" using nth_mem by blast
    with that show False by simp
  qed
  from present absent show ?thesis by blast
qed

lemma exponential_search_sorted:
  assumes "sorted S"
  shows "\<exists>reads r. exponential_search S item = Some (reads, r)
     \<and> (item \<in> set S \<longrightarrow> (\<exists>i. r = Inr i \<and> 0 \<le> i \<and> i < int (length S) \<and> S ! nat i = item))
     \<and> (item \<notin> set S \<longrightarrow> r = Inr (- 1))"
proof (cases "S = []")
  case True
  then show ?thesis by (simp add: exponential_search_def)
next
  case False
  from exponential_search_returns [OF False, of item]
  obtain reads b left right where
    defs: "left = b div 2" "right = min b (int (length S) - 1)"
    and run: "exponential_search S item
         = Some (reads @ accesses (bounds_loop S item left right), outcome (bounds_loop S item left right))"
    and range: "0 \<le> left" "right < int (length S)" and b: "1 \<le> b"
    and stop: "int (length S) \<le> b \<or> \<not> S ! nat b < item"
    and prev: "b = 1 \<or> (b div 2 < int (length S) \<and> S ! nat (b div 2) < item)"
    by blast
  let ?r = "outcome (bounds_loop S item left right)"
  have snd: "?r = Inr (- 1) \<or> (\<exists>i. ?r = Inr i \<and> left \<le> i \<and> i \<le> right \<and> S ! nat i = item)"
    by (rule bounds_loop_sound [OF range])
  have present: "\<exists>i. ?r = Inr i \<and> 0 \<le> i \<and> i < int (length S) \<and> S ! nat i = item" if "item \<in> set S"
  proof -
    from that obtain k where "k < length S" "S ! k = item" by (auto simp: in_set_conv_nth)
    then have "0 \<le> int k" "int k < int (length S)" "S ! nat (int k) = item" by simp_all
    from exponential_range [OF assms this b stop prev]
    obtain j where j: "left \<le> j" "j \<le> right" "S ! nat j = item" unfolding defs by blast
    have "?r \<noteq> Inr (- 1)" by (rule bounds_loop_complete [OF assms range j])
    with snd range show ?thesis by force
  qed
  have absent: "?r = Inr (- 1)" if "item \<notin> set S"
  proof (rule ccontr)
    assume "?r \<noteq> Inr (- 1)"
    with snd obtain i where "left \<le> i" "i \<le> right" "S ! nat i = item" by blast
    then have "nat i < length S" "S ! nat i = item" using range by simp_all
    then have "item \<in> set S" using nth_mem by blast
    with that show False by simp
  qed
  from present absent run show ?thesis by simp
qed

lemma exponential_search_accesses:
  "\<exists>reads r. exponential_search S item = Some (reads, r)
     \<and> (\<forall>i\<in>set reads. 0 \<le> i \<and> i < int (length S)) \<and> length reads \<le> 2 * length S"
proof (cases "S = []")
  case True
  then show ?thesis by (simp add: exponential_search_def)
next
  case False
  from exponential_search_returns [OF False, of item]
  obtain reads b left right where
    run: "exponential_search S item
         = Some (reads @ accesses (bounds_loop S item left right), outcome (bounds_loop S item left right))"
    and range: "0 \<le> left" "right < int (length S)"
    and reads: "\<forall>i\<in>set reads. 1 \<le> i \<and> i < int (length S)" "length reads \<le> length S - 1"
    by blast
  have "\<forall>i\<in>set (accesses (bounds_loop S item left right)). 0 \<le> i \<and> i < int (length S)"
    using bounds_loop_accesses [OF range] range by fastforce
  moreover have "length (accesses (bounds_loop S item left right)) \<le> length S"
    using bounds_loop_length [of S item left right] range by linarith
  ultimately show ?thesis using run reads by fastforce
qed

section \<open>The claims\<close>

text \<open>
  Claim C1. On a sorted sequence, \<open>binary_search\<close> returns an index of the sequence
  that holds the item when the item occurs in the sequence, and \<open>-1\<close> when it does
  not.
\<close>

theorem binary_search_correct:
  assumes "sorted S"
  shows "(item \<in> set S \<longrightarrow>
            (\<exists>i. outcome (binary_search S item) = Inr i \<and> 0 \<le> i \<and> i < int (length S) \<and> S ! nat i = item))
       \<and> (item \<notin> set S \<longrightarrow> outcome (binary_search S item) = Inr (- 1))"
  by (rule binary_search_sorted [OF assms])

text \<open>
  The theorem of C1 at the sequence \<open>[0, 5, 7, 10, 15]\<close>, for an item that occurs and
  one that does not.
\<close>

theorem binary_search_correct_witness:
  "sorted [0, 5, 7, 10, 15 :: int]
   \<and> outcome (binary_search [0, 5, 7, 10, 15 :: int] 10) = Inr 3
   \<and> outcome (binary_search [0, 5, 7, 10, 15 :: int] 8) = Inr (- 1)"
  using binary_search_correct [of "[0, 5, 7, 10, 15 :: int]" 10]
    binary_search_correct [of "[0, 5, 7, 10, 15 :: int]" 8]
  by (simp add: binary_search_def binary_search_loop.simps fetch_def getitem_def probe_def drop_bit_eq_div)

text \<open>
  Claim C2. For bounds \<open>0 \<le> low \<le> high \<le> len - 1\<close>,
  \<open>binary_search_with_bounds\<close> between \<open>low\<close> and \<open>high\<close> is \<open>binary_search\<close> on the
  sub-sequence from \<open>low\<close> to \<open>high\<close>, every index moved up by \<open>low\<close> and \<open>-1\<close>
  kept: the result and the reads agree. The sequence need not be sorted.
\<close>

theorem bounds_is_search_of_subsequence:
  assumes "0 \<le> low" "low \<le> high" "high \<le> int (length S) - 1"
  shows "binary_search_with_bounds S item low (Some high)
           = offset_by low (binary_search (subsequence S low high) item)"
proof -
  have h: "high < int (length S)" using assms by simp
  have "bounds_loop S item (low + 0) (low + (high - low))
          = offset_by low (bounds_loop (subsequence S low high) item 0 (high - low))"
    by (rule bounds_loop_offset [OF assms(1,2) h]) simp_all
  then show ?thesis
    using subsequence_length [OF assms(1,2) h]
    by (simp add: binary_search_with_bounds_def binary_search_def loops_agree)
qed

text \<open>
  The theorem of C2 at the bounds \<open>3\<close> and \<open>5\<close> of \<open>[1, 2, 3, 4, 5, 6]\<close>.
\<close>

theorem bounds_is_search_of_subsequence_witness:
  "(0::int) \<le> 3 \<and> (3::int) \<le> 5 \<and> 5 \<le> int (length [1, 2, 3, 4, 5, 6 :: int]) - 1
   \<and> binary_search_with_bounds [1, 2, 3, 4, 5, 6 :: int] 5 3 (Some 5) = ([4], Inr 4)
   \<and> offset_by 3 (binary_search (subsequence [1, 2, 3, 4, 5, 6 :: int] 3 5) 5) = ([4], Inr 4)"
  using bounds_is_search_of_subsequence [of 3 5 "[1, 2, 3, 4, 5, 6 :: int]" 5]
  by (simp add: binary_search_def binary_search_loop.simps fetch_def getitem_def probe_def
      drop_bit_eq_div subsequence_def offset_by_def)

text \<open>
  Claim C3. On a sorted sequence, \<open>exponential_search\<close> returns, and it agrees with
  \<open>binary_search\<close> on found or not found: both return \<open>-1\<close>, or each returns an
  index of the sequence that holds the item (the two indices may differ).
\<close>

theorem exponential_agrees_with_binary:
  assumes "sorted S"
  shows "\<exists>reads r. exponential_search S item = Some (reads, r) \<and>
     ((r = Inr (- 1) \<and> outcome (binary_search S item) = Inr (- 1)) \<or>
      (\<exists>i j. r = Inr i \<and> 0 \<le> i \<and> i < int (length S) \<and> S ! nat i = item
         \<and> outcome (binary_search S item) = Inr j \<and> 0 \<le> j \<and> j < int (length S) \<and> S ! nat j = item))"
proof -
  from exponential_search_sorted [OF assms, of item]
  obtain reads r where e: "exponential_search S item = Some (reads, r)"
    "item \<in> set S \<longrightarrow> (\<exists>i. r = Inr i \<and> 0 \<le> i \<and> i < int (length S) \<and> S ! nat i = item)"
    "item \<notin> set S \<longrightarrow> r = Inr (- 1)"
    by blast
  show ?thesis
  proof (cases "item \<in> set S")
    case True
    with e(2) binary_search_sorted [OF assms, of item] show ?thesis
      unfolding e(1) by blast
  next
    case False
    with e(3) binary_search_sorted [OF assms, of item] show ?thesis
      unfolding e(1) by blast
  qed
qed

text \<open>
  The theorem of C3 at \<open>[1, 2, 2, 2, 3, 4, 5]\<close>: for the item \<open>2\<close> the two searches
  return the different indices \<open>1\<close> and \<open>3\<close>, for the item \<open>6\<close> both return \<open>-1\<close>.
\<close>

theorem exponential_agrees_with_binary_witness:
  "sorted [1, 2, 2, 2, 3, 4, 5 :: int]
   \<and> exponential_search [1, 2, 2, 2, 3, 4, 5 :: int] 2 = Some ([1, 0, 1], Inr 1)
   \<and> outcome (binary_search [1, 2, 2, 2, 3, 4, 5 :: int] 2) = Inr 3
   \<and> exponential_search [1, 2, 2, 2, 3, 4, 5 :: int] 6 = Some ([1, 2, 4, 5, 6], Inr (- 1))
   \<and> outcome (binary_search [1, 2, 2, 2, 3, 4, 5 :: int] 6) = Inr (- 1)"
proof -
  have s: "sorted [1, 2, 2, 2, 3, 4, 5 :: int]" by simp
  have e2: "exponential_search [1, 2, 2, 2, 3, 4, 5 :: int] 2 = Some ([1, 0, 1], Inr 1)"
    by code_simp
  have e6: "exponential_search [1, 2, 2, 2, 3, 4, 5 :: int] 6 = Some ([1, 2, 4, 5, 6], Inr (- 1))"
    by code_simp
  have n: "[1, 2, 2, 2, 3, 4, 5 :: int] ! nat j = 6 \<Longrightarrow> 0 \<le> j \<Longrightarrow> j < 7 \<Longrightarrow> False" for j
    by (auto simp: nth_Cons' split: if_splits)
  have b2: "outcome (binary_search [1, 2, 2, 2, 3, 4, 5 :: int] 2) = Inr 3"
    by code_simp
  from exponential_agrees_with_binary [OF s, of 6] e6 n
  have b6: "outcome (binary_search [1, 2, 2, 2, 3, 4, 5 :: int] 6) = Inr (- 1)"
    by auto
  from s e2 b2 e6 b6 show ?thesis by simp
qed

text \<open>
  Claim C4 fails on the code. On the sorted sequence of doubles
  \<^verbatim>\<open>[-2.0**1023, 0.0, 2.0**1023]\<close> with the item \<^verbatim>\<open>0.0\<close>, which is in the
  sequence, \<open>interpolation_search\<close> raises \<^verbatim>\<open>ValueError\<close>: the numerator
  \<^verbatim>\<open>(0.0 + 2.0**1023) * 2\<close> and the divisor \<^verbatim>\<open>2.0**1023 + 2.0**1023\<close> both overflow to
  \<^verbatim>\<open>inf\<close>, their quotient is \<^verbatim>\<open>nan\<close>, and \<^verbatim>\<open>int(nan)\<close> raises before the position
  is clamped. \<open>binary_search\<close> on the same values returns the index \<open>1\<close>.
\<close>

theorem interpolation_raises_on_float_overflow:
  "interpolation_search
      [PyFloat (Finite (- huge)), PyFloat (Finite 0), PyFloat (Finite huge)] (PyFloat (Finite 0))
     = ([0, 2, 0, 2, 0, 2, 0], Inl ValueError)
   \<and> binary_search [- huge, 0, huge] 0 = ([1], Inr 1)"
proof
  let ?S = "[PyFloat (Finite (- huge)), PyFloat (Finite 0), PyFloat (Finite huge)]"
  let ?item = "PyFloat (Finite 0)"
  have sub: "num_sub ?item (PyFloat (Finite (- huge))) = Inr (PyFloat (Finite huge))"
    by (simp add: num_sub_def to_float_def and_then_def round_double_huge)
  have two: "to_float (PyInt 2) = Inr (Finite 2)"
    by (simp add: to_float_def round_double_2)
  have "huge * 2 = huge + huge" by simp
  then have dbl: "round_double (huge * 2) = PosInf" by (simp only: round_double_twice_huge)
  have "2 * huge = huge + huge" by simp
  then have dbl': "round_double (2 * huge) = PosInf" by (simp only: round_double_twice_huge)
  have mul: "num_mul (PyFloat (Finite huge)) (PyInt 2) = Inr (PyFloat PosInf)"
    by (simp add: num_mul_def to_float_def [of "PyFloat _"] two and_then_def dbl dbl')
  have n: "numerator ?item (PyFloat (Finite (- huge))) 2 = Inr (PyFloat PosInf)"
    by (simp add: numerator_def sub mul and_then_def)
  have width: "num_sub (PyFloat (Finite huge)) (PyFloat (Finite (- huge))) = Inr (PyFloat PosInf)"
    by (simp add: num_sub_def to_float_def and_then_def dbl')
  have e: "estimate (PyFloat PosInf) (PyFloat (Finite huge)) (PyFloat (Finite (- huge))) = Inl ValueError"
    by (simp add: estimate_def width num_truediv_def to_float_def and_then_def py_int_def)
  have cmp: "py_le (PyFloat (Finite (- huge))) ?item" "py_le ?item (PyFloat (Finite huge))"
    "\<not> py_eq (PyFloat (Finite (- huge))) (PyFloat (Finite huge))"
    using huge_pos by (simp_all add: py_le_def py_eq_def exact_def float_eq_def)
  have "interpolation_loop ?S ?item 0 2 = ([0, 2, 0, 2, 0, 2, 0], Inl ValueError)"
    by (subst interpolation_loop_step [where lo = "PyFloat (Finite (- huge))"
          and hi = "PyFloat (Finite huge)"])
       (simp_all add: cmp n e)
  then show "interpolation_search ?S ?item = ([0, 2, 0, 2, 0, 2, 0], Inl ValueError)"
    by (simp add: interpolation_search_def)
next
  show "binary_search [- huge, 0, huge] 0 = ([1], Inr 1)"
    using huge_pos
    by (simp add: binary_search_def binary_search_loop.simps fetch_def getitem_def probe_def
        drop_bit_eq_div)
qed

text \<open>
  Claim C5. On every sequence, sorted or not, empty or not, \<open>binary_search\<close> is
  \<open>binary_search_with_bounds\<close> with its default bounds (\<open>left = 0\<close>, \<open>right\<close>
  omitted): the same reads and the same result.
\<close>

theorem binary_search_is_default_bounds:
  "binary_search S item = binary_search_with_bounds S item 0 None"
  by (simp add: binary_search_def binary_search_with_bounds_def loops_agree)

text \<open>
  Claim C6. On \<open>[1, 2, 2, 2, 3, 4, 5]\<close> with the item \<open>2\<close>, \<open>binary_search\<close> and
  \<open>binary_search_with_bounds\<close> (default bounds) return the index \<open>3\<close> and
  \<open>exponential_search\<close> returns the index \<open>1\<close>; both positions hold \<open>2\<close>. The
  index is the one the probing lands on: \<open>3\<close> is not the first occurrence, \<open>1\<close> is
  not the last.
\<close>

theorem repeated_values_scenario:
  "outcome (binary_search [1, 2, 2, 2, 3, 4, 5 :: int] 2) = Inr 3
   \<and> outcome (binary_search_with_bounds [1, 2, 2, 2, 3, 4, 5 :: int] 2 0 None) = Inr 3
   \<and> map_option outcome (exponential_search [1, 2, 2, 2, 3, 4, 5 :: int] 2) = Some (Inr 1)
   \<and> [1, 2, 2, 2, 3, 4, 5 :: int] ! 3 = 2 \<and> [1, 2, 2, 2, 3, 4, 5 :: int] ! 1 = 2"
  by code_simp

text \<open>
  Claim C7. With explicit bounds \<open>left > right\<close>, \<open>binary_search_with_bounds\<close>
  returns \<open>-1\<close>: no exception is raised and no element is read, on any sequence
  and for any bounds, in range or not.
\<close>

theorem malformed_bounds_not_found:
  "right < left \<Longrightarrow> binary_search_with_bounds S item left (Some right) = ([], Inr (- 1))"
  by (simp add: binary_search_with_bounds_def bounds_loop.simps)

text \<open>
  The theorem of C7 at the bounds \<open>left = 4\<close>, \<open>right = 2\<close> of the test suite.
\<close>

theorem malformed_bounds_not_found_witness:
  "(2::int) < 4 \<and> binary_search_with_bounds [1, 2, 3, 4, 5, 6 :: int] 3 4 (Some 2) = ([], Inr (- 1))"
  using malformed_bounds_not_found [of 2 4 "[1, 2, 3, 4, 5, 6 :: int]" 3] by simp

text \<open>
  Claim C8 fails on the code. On the sorted sequence \<^verbatim>\<open>[9007199254740992.0,
  9007199254740993]\<close> with the item \<^verbatim>\<open>9007199254740993\<close>, the guard of line 126
  compares the two elements exactly and finds them different, but the divisor
  \<^verbatim>\<open>9007199254740993 - 9007199254740992.0\<close> is computed in double precision, where
  the integer rounds to \<open>2 ^ 53\<close>, and is \<^verbatim>\<open>0.0\<close>: the division raises
  \<^verbatim>\<open>ZeroDivisionError\<close>.
\<close>

theorem interpolation_divides_by_zero:
  "interpolation_search [PyFloat (Finite 9007199254740992), PyInt 9007199254740993]
      (PyInt 9007199254740993)
     = ([0, 1, 0, 1, 0, 1, 0], Inl ZeroDivisionError)
   \<and> \<not> py_eq (PyFloat (Finite 9007199254740992)) (PyInt 9007199254740993)
   \<and> num_sub (PyInt 9007199254740993) (PyFloat (Finite 9007199254740992)) = Inr (PyFloat (Finite 0))"
  by code_simp

text \<open>
  Claim C9. On every sequence, sorted or not, and for every item, \<open>binary_search\<close>,
  \<open>exponential_search\<close> and \<open>interpolation_search\<close> read only indices from \<open>0\<close> to
  \<open>len - 1\<close>, and none of them raises \<^verbatim>\<open>IndexError\<close>. For \<open>interpolation_search\<close>
  the sequence holds any Python numbers, integers and doubles, special values
  included.
\<close>

theorem searches_read_within_sequence:
  "(\<forall>i\<in>set (accesses (binary_search S item)). 0 \<le> i \<and> i < int (length S))
   \<and> outcome (binary_search S item) \<noteq> Inl IndexError
   \<and> (\<exists>reads r. exponential_search S item = Some (reads, r) \<and> r \<noteq> Inl IndexError
         \<and> (\<forall>i\<in>set reads. 0 \<le> i \<and> i < int (length S)))
   \<and> (\<forall>i\<in>set (accesses (interpolation_search T v)). 0 \<le> i \<and> i < int (length T))
   \<and> outcome (interpolation_search T v) \<noteq> Inl IndexError"
proof (intro conjI)
  have r: "(0::int) \<le> 0" "int (length S) - 1 < int (length S)" by simp_all
  show "\<forall>i\<in>set (accesses (binary_search S item)). 0 \<le> i \<and> i < int (length S)"
    using bounds_loop_accesses [OF r, of _ item]
    by (fastforce simp: binary_search_def loops_agree)
  show "outcome (binary_search S item) \<noteq> Inl IndexError"
    using bounds_loop_sound [OF r, of item] by (auto simp: binary_search_def loops_agree)
next
  show "\<exists>reads r. exponential_search S item = Some (reads, r) \<and> r \<noteq> Inl IndexError
         \<and> (\<forall>i\<in>set reads. 0 \<le> i \<and> i < int (length S))"
  proof (cases "S = []")
    case True
    then show ?thesis by (simp add: exponential_search_def)
  next
    case False
    from exponential_search_returns [OF False, of item]
    obtain reads b left right where
      run: "exponential_search S item
         = Some (reads @ accesses (bounds_loop S item left right), outcome (bounds_loop S item left right))"
      and range: "0 \<le> left" "right < int (length S)"
      and reads: "\<forall>i\<in>set reads. 1 \<le> i \<and> i < int (length S)"
      by blast
    have "\<forall>i\<in>set (accesses (bounds_loop S item left right)). 0 \<le> i \<and> i < int (length S)"
      using bounds_loop_accesses [OF range] range by fastforce
    moreover have "outcome (bounds_loop S item left right) \<noteq> Inl IndexError"
      using bounds_loop_sound [OF range, of item] by auto
    ultimately show ?thesis using run reads by fastforce
  qed
next
  have r: "(0::int) \<le> 0" "int (length T) - 1 < int (length T)" by simp_all
  show "\<forall>i\<in>set (accesses (interpolation_search T v)). 0 \<le> i \<and> i < int (length T)"
    using interpolation_loop_accesses [OF r, of _ v]
    by (fastforce simp: interpolation_search_def)
  show "outcome (interpolation_search T v) \<noteq> Inl IndexError"
    using interpolation_loop_no_index_error [OF r, of v] by (simp add: interpolation_search_def)
qed

text \<open>
  The theorem of C9 at an unsorted sequence of integers for the first two searches and
  at an unsorted sequence of integers and doubles for interpolation search, with the
  indices they read.
\<close>

theorem searches_read_within_sequence_witness:
  "accesses (binary_search [5, 1, 4, 2, 6, 3 :: int] 7) = [2, 4, 5]
   \<and> 5 \<in> set (accesses (binary_search [5, 1, 4, 2, 6, 3 :: int] 7))
   \<and> (0::int) \<le> 5 \<and> 5 < int (length [5, 1, 4, 2, 6, 3 :: int])
   \<and> exponential_search [5, 1, 4, 2, 6, 3 :: int] 7 = Some ([1, 2, 4, 4, 5], Inr (- 1))
   \<and> accesses (interpolation_search
        [PyFloat (Finite 1), PyFloat (Finite (5 / 2)), PyInt 3, PyInt 2, PyFloat (Finite 6)]
        (PyInt 3)) = [0, 4, 0, 4, 0, 4, 0, 1, 1, 2, 4, 2, 4, 2, 4, 2, 2]
   \<and> 4 \<in> set (accesses (interpolation_search
        [PyFloat (Finite 1), PyFloat (Finite (5 / 2)), PyInt 3, PyInt 2, PyFloat (Finite 6)]
        (PyInt 3)))
   \<and> 4 < int (length
        [PyFloat (Finite 1), PyFloat (Finite (5 / 2)), PyInt 3, PyInt 2, PyFloat (Finite 6)])"
proof -
  let ?T = "[PyFloat (Finite 1), PyFloat (Finite (5 / 2)), PyInt 3, PyInt 2, PyFloat (Finite 6)]"
  have b: "accesses (binary_search [5, 1, 4, 2, 6, 3 :: int] 7) = [2, 4, 5]" by code_simp
  have e: "exponential_search [5, 1, 4, 2, 6, 3 :: int] 7 = Some ([1, 2, 4, 4, 5], Inr (- 1))"
    by code_simp
  have i: "accesses (interpolation_search ?T (PyInt 3)) = [0, 4, 0, 4, 0, 4, 0, 1, 1, 2, 4, 2, 4, 2, 4, 2, 2]"
    by code_simp
  from searches_read_within_sequence [of "[5, 1, 4, 2, 6, 3 :: int]" 7 ?T "PyInt 3"]
  show ?thesis
    unfolding b e i by simp
qed

text \<open>
  Claim C10. Every call of the four functions ends, on every input, sorted or not: it
  returns a value or raises an exception after a bounded number of reads. The loops of
  \<open>binary_search\<close>, \<open>binary_search_with_bounds\<close> and \<open>interpolation_search\<close> are
  total functions, defined by well-founded recursion on the width
  \<open>right - left + 1\<close>, which every iteration decreases because the position it reads
  lies between \<open>left\<close> and \<open>right\<close>; the number of reads is bounded by the width
  (nine reads for one iteration of the interpolation loop). The doubling loop of
  \<open>exponential_search\<close>, a partial function, returns a value from \<open>bound = 1\<close>, after
  fewer reads than the sequence has elements.
\<close>

theorem searches_terminate:
  "length (accesses (binary_search S item)) \<le> length S
   \<and> length (accesses (binary_search_with_bounds S item left (Some right))) \<le> nat (right - left + 1)
   \<and> length (accesses (binary_search_with_bounds S item left None)) \<le> nat (int (length S) - left)
   \<and> (\<exists>reads r. exponential_search S item = Some (reads, r) \<and> length reads \<le> 2 * length S)
   \<and> length (accesses (interpolation_search T v)) \<le> 9 * length T"
proof (intro conjI)
  show "length (accesses (binary_search S item)) \<le> length S"
    using bounds_loop_length [of S item 0 "int (length S) - 1"]
    by (simp add: binary_search_def loops_agree)
  show "length (accesses (binary_search_with_bounds S item left (Some right))) \<le> nat (right - left + 1)"
    using bounds_loop_length [of S item left right] by (simp add: binary_search_with_bounds_def)
  show "length (accesses (binary_search_with_bounds S item left None)) \<le> nat (int (length S) - left)"
    using bounds_loop_length [of S item left "int (length S) - 1"]
    by (simp add: binary_search_with_bounds_def)
  show "\<exists>reads r. exponential_search S item = Some (reads, r) \<and> length reads \<le> 2 * length S"
    using exponential_search_accesses [of S item] by blast
  show "length (accesses (interpolation_search T v)) \<le> 9 * length T"
    using interpolation_loop_length [of 0 "int (length T) - 1" T v]
    by (simp add: interpolation_search_def)
qed

end
